theory Spec2Isabelle
  imports Main "HOL-Library.AList" "HOL-Library.Sublist"
begin

section \<open>DynamoDB utility methods of aws-toolbelt\<close>

text \<open>
  The module is a layer of helper functions over the DynamoDB document client. The
  remote client is not part of the module: a run of a helper is modelled against the
  sequence of replies the client gives, the \<open>i\<close>-th call receiving the \<open>i\<close>-th reply, and
  the calls a helper issues are recorded in a log that the model returns.
\<close>

subsection \<open>Values\<close>

text \<open>
  Attribute values are passed through to the client and never inspected. \<open>Undefined\<close>
  is the value of a property that an argument object does not have.
\<close>

datatype jsval = Undefined | Null | Bool bool | Num int | Str string

text \<open>A JavaScript object with string keys: its properties in insertion order.\<close>

type_synonym obj = "(string \<times> jsval) list"

datatype error = Error string | Rejected string

subsection \<open>Numbers\<close>

text \<open>
  The counts of a result are JavaScript numbers, that is doubles. The service reports
  integers, and adding integer-valued doubles gives an integer-valued double, an
  infinity or \<open>NaN\<close>, so a count is modelled by these values. \<open>Integer z\<close> stands for
  the double of value \<open>z\<close>.
\<close>

datatype jsnum = Integer int | Infinity | NegInfinity | NaN

text \<open>The number of binary digits of a positive integer.\<close>

function bits :: "int \<Rightarrow> nat" where
  "bits n = (if n \<le> 0 then 0 else Suc (bits (n div 2)))"
  by pat_completeness auto
termination
  by (relation "measure nat") auto

declare bits.simps [simp del]

text \<open>
  The double nearest to an integer: the integer itself when it has at most 53 binary
  digits; otherwise its leading 53 digits, rounded to nearest with ties to even, and
  an infinity from \<open>2 ^ 1024\<close> on.
\<close>

definition roundDouble :: "int \<Rightarrow> jsnum" where
  "roundDouble z =
     (let a = \<bar>z\<bar>; n = bits a
      in if n \<le> 53 then Integer z
         else (let e = n - 53;
                   m = a div 2 ^ e;
                   r = a mod 2 ^ e;
                   half = 2 ^ (e - 1);
                   m' = (if r > half \<or> (r = half \<and> odd m) then m + 1 else m);
                   v = m' * 2 ^ e
               in if v \<ge> 2 ^ 1024 then (if z < 0 then NegInfinity else Infinity)
                  else Integer (if z < 0 then - v else v)))"

text \<open>The operator \<open>+\<close> on numbers.\<close>

fun jsAdd :: "jsnum \<Rightarrow> jsnum \<Rightarrow> jsnum" where
  "jsAdd (Integer x) (Integer y) = roundDouble (x + y)"
| "jsAdd NaN y = NaN"
| "jsAdd x NaN = NaN"
| "jsAdd Infinity NegInfinity = NaN"
| "jsAdd NegInfinity Infinity = NaN"
| "jsAdd Infinity y = Infinity"
| "jsAdd x Infinity = Infinity"
| "jsAdd NegInfinity y = NegInfinity"
| "jsAdd x NegInfinity = NegInfinity"

subsection \<open>Chunked batch writes\<close>

text \<open>
  \<open>batchWrite\<close> keeps its chunks in an object \<open>map\<close> whose keys are \<open>0, 1, ..., k - 1\<close>.
  Such an object is modelled by the list of its values in key order:
  \<open>Object.keys(map).length\<close> is the length of the list, \<open>map[i]\<close> its \<open>i\<close>-th element and
  the assignment \<open>map[k] = []\<close> at the first unused key appends an element. The map
  is created with the key \<open>0\<close> and no key is ever removed, so the last index computed
  in line 104 is a key of the map (lemma \<open>chunked_chunkRequests\<close> below).
\<close>

text \<open>The body of the \<open>forEach\<close> callback, lines 104 to 111.\<close>

definition addRequest :: "'a list list \<Rightarrow> 'a \<Rightarrow> 'a list list" where
  "addRequest m request =
     (let index = length m - 1 in
      if length (m ! index) \<ge> 25
      then (let nextIndex = index + 1; m' = m @ [[]]
            in m'[nextIndex := (m' ! nextIndex) @ [request]])
      else m[index := (m ! index) @ [request]])"

text \<open>The chunk map \<open>batchWrite\<close> has built when the \<open>forEach\<close> is over, lines 102 to 112.\<close>

definition chunkRequests :: "'a list \<Rightarrow> 'a list list" where
  "chunkRequests requests = foldl addRequest [[]] requests"

text \<open>
  The reply of the client to one \<open>batchWrite\<close> call, as the callback receives it:
  \<open>err\<close> and \<open>data\<close>, either of which may be null; \<open>data.UnprocessedItems\<close> maps a table
  name to the requests that were not processed, and is an object in every reply of the
  client that has \<open>data\<close>.
\<close>

record 'a bw_data =
  UnprocessedItems :: "(string \<times> 'a list) list"

record 'a bw_reply =
  err :: "string option"
  data :: "'a bw_data option"

text \<open>
  One call of the client: the parameter \<open>RequestItems\<close>, a single table name with the
  value of \<open>map[index]\<close> (\<open>None\<close> when the map has no such key).
\<close>

type_synonym 'a bw_call = "string \<times> 'a list option"

definition chunkAt :: "'a list list \<Rightarrow> nat \<Rightarrow> 'a list option" where
  "chunkAt m index = (if index < length m then Some (m ! index) else None)"

text \<open>
  The properties every plain object inherits from \<open>Object.prototype\<close>; each of them
  is a function or an object, hence truthy.
\<close>

definition objectPrototypeMembers :: "string list" where
  "objectPrototypeMembers =
     [''constructor'', ''__defineGetter__'', ''__defineSetter__'', ''hasOwnProperty'',
      ''__lookupGetter__'', ''__lookupSetter__'', ''isPrototypeOf'', ''propertyIsEnumerable'',
      ''toString'', ''valueOf'', ''__proto__'', ''toLocaleString'']"

text \<open>
  The test \<open>data && data.UnprocessedItems[tableName]\<close> of line 137. The lookup finds a
  property of the object itself, whose value is an array and truthy also when empty,
  or else an inherited one.
\<close>

definition hasUnprocessed :: "'a bw_reply \<Rightarrow> string \<Rightarrow> bool" where
  "hasUnprocessed reply tableName =
     (case data reply of
        None \<Rightarrow> False
      | Some d \<Rightarrow>
          (case map_of (UnprocessedItems d) tableName of
             Some items \<Rightarrow> True
           | None \<Rightarrow> tableName \<in> set objectPrototypeMembers))"

text \<open>
  \<open>_batchWrite\<close>, lines 127 to 148. The next call is issued from the callback of the
  previous one. The result is the log of the calls issued; console output is left out,
  and so is the exception that ends the callback when line 139 finds an inherited
  property in place of an array: no call follows either way.
\<close>

function batchWrite_underlying ::
  "(nat \<Rightarrow> 'a bw_reply) \<Rightarrow> 'a bw_call list \<Rightarrow> nat \<Rightarrow> 'a list list \<Rightarrow> string \<Rightarrow> bool
     \<Rightarrow> 'a bw_call list" where
  "batchWrite_underlying replies log index m tableName keepGoing =
     (let reply = replies (length log);
          log' = log @ [(tableName, chunkAt m index)]
      in if hasUnprocessed reply tableName then log'
         else if keepGoing
         then (if int index \<ge> int (length m) - 1 then log'
               else batchWrite_underlying replies log' (index + 1) m tableName keepGoing)
         else log')"
  by pat_completeness auto
termination
  by (relation "measure (\<lambda>(replies, log, index, m, tableName, keepGoing). length m - index)") auto

text \<open>\<open>batchWrite\<close>, lines 100 to 115: the chunk map and the calls issued.\<close>

definition batchWrite ::
  "(nat \<Rightarrow> 'a bw_reply) \<Rightarrow> 'a list \<Rightarrow> string \<Rightarrow> 'a list list \<times> 'a bw_call list" where
  "batchWrite replies requests tableName =
     (let m = chunkRequests requests
      in (m, batchWrite_underlying replies [] 0 m tableName True))"

subsection \<open>Requests and results of query and scan\<close>

type_synonym key = obj
type_synonym item = obj

text \<open>
  The parameter object of a query or scan call. \<open>None\<close> is a property the object does
  not have.
\<close>

record request =
  TableName :: string
  KeyConditionExpression :: "string option"
  FilterExpression :: "string option"
  ExpressionAttributeValues :: "obj option"
  ExclusiveStartKey :: "key option"

text \<open>
  The accumulator of the pagination and the result of one call, which has the
  accumulator's properties and, when more pages remain, a \<open>LastEvaluatedKey\<close>.
\<close>

record aggregated =
  Count :: jsnum
  ScannedCount :: jsnum
  Items :: "item list"

record results = aggregated +
  LastEvaluatedKey :: "key option"

text \<open>A promise of the client resolves with results or is rejected.\<close>

type_synonym reply = "error + results"

text \<open>How a template literal prints a string that may be undefined.\<close>

definition tmpl :: "string option \<Rightarrow> string" where
  "tmpl s = (case s of None \<Rightarrow> ''undefined'' | Some t \<Rightarrow> t)"

text \<open>
  The object spread \<open>{...a, ...b}\<close>: the properties of \<open>a\<close>, then those of \<open>b\<close> assigned
  in order; spreading undefined adds nothing.
\<close>

definition spread :: "obj option \<Rightarrow> obj \<Rightarrow> obj" where
  "spread a b =
     foldl (\<lambda>acc (k, v). AList.update k v acc) (case a of None \<Rightarrow> [] | Some ps \<Rightarrow> ps) b"

subsection \<open>Key schema\<close>

text \<open>
  \<open>describeTable\<close> is a call of the remote client; of its reply the module reads
  \<open>Table.KeySchema\<close>, a list of \<open>{AttributeName, KeyType}\<close>. \<open>_getTableKeySchema\<close>, lines
  156 to 162, reduces it to an object from key type to attribute name.
\<close>

type_synonym key_schema = "(string \<times> string) list"

definition getTableKeySchema ::
  "(string \<Rightarrow> error + key_schema) \<Rightarrow> string \<Rightarrow> error + (string \<times> string) list" where
  "getTableKeySchema describeTable tableName =
     (case describeTable tableName of
        Inl e \<Rightarrow> Inl e
      | Inr keySchema \<Rightarrow>
          Inr (foldl (\<lambda>map (AttributeName, KeyType). AList.update KeyType AttributeName map)
                 [] keySchema))"

subsection \<open>Query parameters\<close>

text \<open>
  A key condition object \<open>{operation, value, value1, value2}\<close>; a filter has an
  \<open>attribute\<close> as well. An absent \<open>operation\<close> is \<open>None\<close>, an absent value \<open>Undefined\<close>.
\<close>

record condition =
  operation :: "string option"
  "value" :: jsval
  value1 :: jsval
  value2 :: jsval

record scan_filter = condition +
  attribute :: string

text \<open>The destructuring \<open>{operation = '='}\<close>: an absent operation is \<open>=\<close>.\<close>

definition operationOrDefault :: "'a condition_scheme \<Rightarrow> string" where
  "operationOrDefault c = (case operation c of None \<Rightarrow> ''='' | Some s \<Rightarrow> s)"

text \<open>
  The argument \<open>sortKeyValueOrKeyCondition\<close>: left out, a string, or a key condition
  object.
\<close>

datatype sort_key_arg = NoSortKey | SortKeyValue string | KeyCondition condition

definition invalidOperation :: "string \<Rightarrow> error" where
  \<open>invalidOperation op = Error (''Invalid operation "'' @ op @ ''" used.'')\<close>

definition queryOperations :: "string list" where
  "queryOperations = [''='', ''>'', ''>='', ''<'', ''<='', ''between'', ''begins_with'']"

text \<open>
  \<open>_constructQueryParams\<close>, lines 175 to 207. \<open>kce\<close> and \<open>eav\<close> are the properties
  \<open>KeyConditionExpression\<close> and \<open>ExpressionAttributeValues\<close> of \<open>params\<close> as line 176
  sets them; \<open>queryRequest\<close> is the object returned. The test of line 183 fails for a
  missing argument and for the empty string.
\<close>

definition queryRequest :: "string \<Rightarrow> string \<Rightarrow> obj \<Rightarrow> request" where
  "queryRequest tableName kce eav =
     \<lparr>TableName = tableName, KeyConditionExpression = Some kce, FilterExpression = None,
      ExpressionAttributeValues = Some eav, ExclusiveStartKey = None\<rparr>"

definition constructQueryParams ::
  "string \<Rightarrow> string option \<Rightarrow> jsval \<Rightarrow> string option \<Rightarrow> sort_key_arg \<Rightarrow> error + request" where
  "constructQueryParams tableName primaryKey primaryKeyValue sortKey sortKeyValueKeyCondition =
     (let kce = tmpl primaryKey @ '' = :pkvalue'';
          eav = [('':pkvalue'', primaryKeyValue)]
      in case sortKeyValueKeyCondition of
           NoSortKey \<Rightarrow> Inr (queryRequest tableName kce eav)
         | SortKeyValue s \<Rightarrow>
             if s = [] then Inr (queryRequest tableName kce eav)
             else Inr (queryRequest tableName
                         (kce @ '' and begins_with('' @ tmpl sortKey @ '', :skvalue)'')
                         (AList.update '':skvalue'' (Str s) eav))
         | KeyCondition c \<Rightarrow>
             (let operation = operationOrDefault c;
                  isValidOperation = (operation \<in> set queryOperations)
              in if \<not> isValidOperation then Inl (invalidOperation operation)
                 else if operation = ''begins_with''
                 then Inr (queryRequest tableName
                             (kce @ '' and begins_with('' @ tmpl sortKey @ '', :skvalue)'')
                             (AList.update '':skvalue'' (value c) eav))
                 else if operation = ''between''
                 then Inr (queryRequest tableName
                             (kce @ '' and '' @ tmpl sortKey @ '' between :skvalue1 and :skvalue2 '')
                             (AList.update '':skvalue2'' (value2 c)
                                (AList.update '':skvalue1'' (value1 c) eav)))
                 else Inr (queryRequest tableName
                             (kce @ '' and '' @ tmpl sortKey @ '' '' @ operation @ '' :skvalue'')
                             (AList.update '':skvalue'' (value c) eav))))"

subsection \<open>Scan parameters\<close>

record filter_query =
  expression :: string
  expressionAttributeValues :: obj

definition filterOperations :: "string list" where
  "filterOperations =
     [''='', ''!='', ''>'', ''>='', ''<'', ''<='', ''between'', ''exists'', ''not exists'',
      ''contains'', ''not contains'', ''begins_with'']"

text \<open>
  \<open>_buildFilterQuery\<close>, lines 253 to 294. \<open>operation.includes(s)\<close> on a string holds
  when \<open>s\<close> is a contiguous part of the operation, which is \<open>sublist s operation\<close>.
\<close>

definition buildFilterQuery :: "scan_filter \<Rightarrow> error + filter_query" where
  "buildFilterQuery filter' =
     (let attribute = attribute filter';
          operation = operationOrDefault filter';
          isValidOperation = (operation \<in> set filterOperations)
      in if \<not> isValidOperation then Inl (invalidOperation operation)
         else if sublist ''begins_with'' operation \<or> sublist ''contains'' operation
         then Inr \<lparr>expression = operation @ ''('' @ attribute @ '', :'' @ attribute @ ''Value)'',
                   expressionAttributeValues =
                     AList.update ('':'' @ attribute @ ''Value'') (value filter') []\<rparr>
         else if operation = ''exists''
         then Inr \<lparr>expression = ''attribute_exists('' @ attribute @ '')'',
                   expressionAttributeValues = []\<rparr>
         else if operation = ''not exists''
         then Inr \<lparr>expression = ''attribute_not_exists('' @ attribute @ '')'',
                   expressionAttributeValues = []\<rparr>
         else if operation = ''between''
         then Inr \<lparr>expression =
                     attribute @ '' between :'' @ attribute @ ''Value1 and :'' @ attribute
                       @ ''Value2'',
                   expressionAttributeValues =
                     AList.update ('':'' @ attribute @ ''Value2'') (value2 filter')
                       (AList.update ('':'' @ attribute @ ''Value1'') (value1 filter') [])\<rparr>
         else Inr \<lparr>expression = attribute @ '' '' @ operation @ '' :'' @ attribute @ ''Value'',
                   expressionAttributeValues =
                     AList.update ('':'' @ attribute @ ''Value'') (value filter') []\<rparr>)"

text \<open>The argument \<open>filters\<close>: left out, an array of filters, or one filter object.\<close>

datatype filters_arg = NoFilters | FilterArray "scan_filter list" | FilterObject scan_filter

text \<open>
  The \<open>forEach\<close> of lines 224 to 236 from index \<open>i\<close> on; an error of
  \<open>_buildFilterQuery\<close> ends it.
\<close>

fun addFilters :: "nat \<Rightarrow> scan_filter list \<Rightarrow> request \<Rightarrow> error + request" where
  "addFilters i [] params = Inr params"
| "addFilters i (filter' # filters) params =
     (case buildFilterQuery filter' of
        Inl e \<Rightarrow> Inl e
      | Inr q \<Rightarrow>
          addFilters (i + 1) filters
            (if i > 0
             then params\<lparr>FilterExpression :=
                            Some (tmpl (FilterExpression params) @ '' and '' @ expression q),
                         ExpressionAttributeValues :=
                            Some (spread (ExpressionAttributeValues params)
                                    (expressionAttributeValues q))\<rparr>
             else params\<lparr>FilterExpression := Some (expression q),
                         ExpressionAttributeValues := Some (expressionAttributeValues q)\<rparr>))"

text \<open>\<open>_constructScanParams\<close>, lines 217 to 244.\<close>

definition constructScanParams :: "string \<Rightarrow> filters_arg \<Rightarrow> error + request" where
  "constructScanParams tableName filters =
     (let params = \<lparr>TableName = tableName, KeyConditionExpression = None,
                     FilterExpression = None, ExpressionAttributeValues = None,
                     ExclusiveStartKey = None\<rparr>
      in case filters of
           NoFilters \<Rightarrow> Inr params
         | FilterArray fs \<Rightarrow> addFilters 0 fs params
         | FilterObject f \<Rightarrow>
             (case buildFilterQuery f of
                Inl e \<Rightarrow> Inl e
              | Inr q \<Rightarrow>
                  Inr (params\<lparr>FilterExpression := Some (expression q),
                              ExpressionAttributeValues := Some (expressionAttributeValues q)\<rparr>)))"

subsection \<open>Auto-pagination\<close>

text \<open>
  The log of a pagination: each call of the client with its method and parameters,
  followed by the reply it resolved or rejected with.
\<close>

datatype event = Request string request | Response reply

fun isRequest :: "event \<Rightarrow> bool" where
  "isRequest (Request method params) = True"
| "isRequest (Response r) = False"

definition calls :: "event list \<Rightarrow> nat" where
  "calls tr = length (filter isRequest tr)"

text \<open>
  \<open>_autoPaginate\<close>, lines 306 to 326. The recursion goes on for as long as the replies
  carry a \<open>LastEvaluatedKey\<close>, so the model takes the number of invocations it may
  make: with none left the result is \<open>None\<close> and the log is the log so far. The
  \<open>await\<close> of line 317 resumes with the reply or throws the rejection.
\<close>

fun autoPaginate ::
  "nat \<Rightarrow> (nat \<Rightarrow> reply) \<Rightarrow> event list \<Rightarrow> request \<Rightarrow> string \<Rightarrow> aggregated \<Rightarrow> key option
     \<Rightarrow> (error + aggregated) option \<times> event list" where
  "autoPaginate 0 pages tr params method aggregatedResults lastEvaluatedKey = (None, tr)"
| "autoPaginate (Suc fuel) pages tr params method aggregatedResults lastEvaluatedKey =
     (if method \<noteq> ''scan'' \<and> method \<noteq> ''query''
      then (Some (Inl (Error (''Invalid method '' @ method @ '' provided.''))), tr)
      else
        (let queryParams = (case lastEvaluatedKey of
                              None \<Rightarrow> params
                            | Some k \<Rightarrow> params\<lparr>ExclusiveStartKey := Some k\<rparr>);
             reply = pages (calls tr);
             tr' = tr @ [Request method queryParams, Response reply]
         in case reply of
              Inl e \<Rightarrow> (Some (Inl e), tr')
            | Inr results \<Rightarrow>
                (let aggregatedResults' =
                       aggregatedResults
                         \<lparr>Count := jsAdd (Count aggregatedResults) (Count results),
                          ScannedCount :=
                            jsAdd (ScannedCount aggregatedResults) (ScannedCount results),
                          Items := Items aggregatedResults @ Items results\<rparr>
                 in case LastEvaluatedKey results of
                      Some k \<Rightarrow> autoPaginate fuel pages tr' params method aggregatedResults' (Some k)
                    | None \<Rightarrow> (Some (Inr aggregatedResults'), tr'))))"

definition initialResults :: aggregated where
  "initialResults = \<lparr>Count = Integer 0, ScannedCount = Integer 0, Items = []\<rparr>"

subsection \<open>Exported operations\<close>

text \<open>\<open>queryTable\<close>, lines 41 to 45; \<open>query\<close> is the client's call.\<close>

definition queryTable ::
  "(string \<Rightarrow> error + key_schema) \<Rightarrow> (request \<Rightarrow> reply) \<Rightarrow> string \<Rightarrow> jsval \<Rightarrow> sort_key_arg
     \<Rightarrow> reply" where
  "queryTable describeTable query tableName primaryKeyValue sortKeyValueOrKeyCondition =
     (case getTableKeySchema describeTable tableName of
        Inl e \<Rightarrow> Inl e
      | Inr schema \<Rightarrow>
          (case constructQueryParams tableName (map_of schema ''HASH'') primaryKeyValue
                  (map_of schema ''RANGE'') sortKeyValueOrKeyCondition of
             Inl e \<Rightarrow> Inl e
           | Inr params \<Rightarrow> query params))"

text \<open>\<open>queryTableWithAutoPagination\<close>, lines 55 to 63.\<close>

definition queryTableWithAutoPagination ::
  "nat \<Rightarrow> (string \<Rightarrow> error + key_schema) \<Rightarrow> (nat \<Rightarrow> reply) \<Rightarrow> string \<Rightarrow> jsval \<Rightarrow> sort_key_arg
     \<Rightarrow> (error + aggregated) option \<times> event list" where
  "queryTableWithAutoPagination fuel describeTable pages tableName primaryKeyValue
       sortKeyValueOrKeyCondition =
     (case getTableKeySchema describeTable tableName of
        Inl e \<Rightarrow> (Some (Inl e), [])
      | Inr schema \<Rightarrow>
          (case constructQueryParams tableName (map_of schema ''HASH'') primaryKeyValue
                  (map_of schema ''RANGE'') sortKeyValueOrKeyCondition of
             Inl e \<Rightarrow> (Some (Inl e), [])
           | Inr params \<Rightarrow> autoPaginate fuel pages [] params ''query'' initialResults None))"

text \<open>\<open>scanTable\<close>, lines 72 to 75; \<open>scan\<close> is the client's call.\<close>

definition scanTable :: "(request \<Rightarrow> reply) \<Rightarrow> string \<Rightarrow> filters_arg \<Rightarrow> reply" where
  "scanTable scan tableName filters =
     (case constructScanParams tableName filters of
        Inl e \<Rightarrow> Inl e
      | Inr params \<Rightarrow> scan params)"

text \<open>\<open>scanTableWithAutoPagination\<close>, lines 84 to 91.\<close>

definition scanTableWithAutoPagination ::
  "nat \<Rightarrow> (nat \<Rightarrow> reply) \<Rightarrow> string \<Rightarrow> filters_arg
     \<Rightarrow> (error + aggregated) option \<times> event list" where
  "scanTableWithAutoPagination fuel pages tableName filters =
     (case constructScanParams tableName filters of
        Inl e \<Rightarrow> (Some (Inl e), [])
      | Inr params \<Rightarrow> autoPaginate fuel pages [] params ''scan'' initialResults None)"

subsection \<open>Notions used by the properties\<close>

text \<open>
  The invariant of the chunk map while the requests are added: it has a chunk, every
  chunk before the last one is full and the last one holds at most 25 requests.
\<close>

definition chunked :: "'a list list \<Rightarrow> bool" where
  "chunked m = (m \<noteq> [] \<and> (\<forall>c \<in> set (butlast m). length c = 25) \<and> length (last m) \<le> 25)"

text \<open>The strings of a list joined with a separator between neighbours.\<close>

fun joinWith :: "string \<Rightarrow> string list \<Rightarrow> string" where
  "joinWith sep [] = []"
| "joinWith sep [x] = x"
| "joinWith sep (x # y # ys) = x @ sep @ joinWith sep (y # ys)"

text \<open>
  A count as the service reports it, a non-negative integer, and the integer a number
  stands for.
\<close>

fun isCount :: "jsnum \<Rightarrow> bool" where
  "isCount (Integer z) = (0 \<le> z)"
| "isCount n = False"

fun countValue :: "jsnum \<Rightarrow> int" where
  "countValue (Integer z) = z"
| "countValue n = 0"

text \<open>A reply after which the pagination goes on: a page with a \<open>LastEvaluatedKey\<close>.\<close>

fun hasNext :: "reply \<Rightarrow> bool" where
  "hasNext (Inl e) = False"
| "hasNext (Inr r) = (LastEvaluatedKey r \<noteq> None)"

text \<open>
  A log of a strictly sequential pagination over \<open>params\<close> that starts from the key
  \<open>lek\<close>: requests and replies alternate, each request has the given method and is
  \<open>params\<close> with the \<open>LastEvaluatedKey\<close> of the reply before it as \<open>ExclusiveStartKey\<close>
  (the first request is \<open>params\<close> as it is when there is no key to start from), and
  nothing follows a rejection or a page without \<open>LastEvaluatedKey\<close>.
\<close>

fun sequential :: "request \<Rightarrow> string \<Rightarrow> key option \<Rightarrow> event list \<Rightarrow> bool" where
  "sequential params method lek [] = True"
| "sequential params method lek (Request m q # Response reply # tr) =
     (m = method
      \<and> q = (case lek of None \<Rightarrow> params | Some k \<Rightarrow> params\<lparr>ExclusiveStartKey := Some k\<rparr>)
      \<and> (case reply of
           Inl e \<Rightarrow> tr = []
         | Inr r \<Rightarrow> (case LastEvaluatedKey r of
                       None \<Rightarrow> tr = []
                     | Some k \<Rightarrow> sequential params method (Some k) tr)))"
| "sequential params method lek tr = False"


section \<open>Properties\<close>

subsection \<open>Chunking\<close>

lemma addRequest_full:
  "m \<noteq> [] \<Longrightarrow> length (last m) \<ge> 25 \<Longrightarrow> addRequest m x = m @ [[x]]"
  by (simp add: addRequest_def Let_def last_conv_nth nth_append)

lemma addRequest_room:
  "m \<noteq> [] \<Longrightarrow> length (last m) < 25 \<Longrightarrow> addRequest m x = butlast m @ [last m @ [x]]"
proof (cases m rule: rev_cases)
  case Nil
  assume "m \<noteq> []"
  with Nil show ?thesis by simp
next
  case (snoc ys y)
  assume "length (last m) < 25"
  with snoc show ?thesis
    by (simp add: addRequest_def Let_def nth_append)
qed

lemma set_butlast_last: "m \<noteq> [] \<Longrightarrow> set m = insert (last m) (set (butlast m))"
  by (cases m rule: rev_cases) auto

lemma chunked_addRequest:
  assumes "chunked m"
  shows "chunked (addRequest m x)"
proof (cases "length (last m) < 25")
  case True
  with assms show ?thesis
    by (simp add: chunked_def addRequest_room)
next
  case False
  with assms have full: "length (last m) = 25" and ne: "m \<noteq> []"
    by (simp_all add: chunked_def)
  have "\<forall>c \<in> set m. length c = 25"
    using assms full by (simp add: set_butlast_last[OF ne] chunked_def)
  then show ?thesis
    using ne full by (simp add: chunked_def addRequest_full)
qed

lemma concat_addRequest: "m \<noteq> [] \<Longrightarrow> concat (addRequest m x) = concat m @ [x]"
proof (cases m rule: rev_cases)
  case Nil
  assume "m \<noteq> []"
  with Nil show ?thesis by simp
next
  case (snoc ys y)
  show ?thesis
    by (cases "length y < 25") (simp_all add: snoc addRequest_room addRequest_full)
qed

lemma foldl_addRequest:
  "chunked m \<Longrightarrow>
     chunked (foldl addRequest m xs) \<and> concat (foldl addRequest m xs) = concat m @ xs"
proof (induction xs arbitrary: m)
  case Nil
  then show ?case by simp
next
  case (Cons x xs)
  have "chunked (addRequest m x)"
    using Cons.prems by (rule chunked_addRequest)
  from Cons.IH[OF this] show ?case
    using Cons.prems by (simp add: concat_addRequest chunked_def)
qed

lemma chunked_chunkRequests: "chunked (chunkRequests rs)"
  using foldl_addRequest[of "[[]]" rs] by (simp add: chunkRequests_def chunked_def)

lemma concat_chunkRequests: "concat (chunkRequests rs) = rs"
  using foldl_addRequest[of "[[]]" rs] by (simp add: chunkRequests_def chunked_def)

text \<open>
  C1. The chunk map that \<open>batchWrite\<close> builds from a list of write requests splits the
  list in order: the concatenation of the chunks is the request list, every chunk holds
  at most 25 requests, and every chunk except the last one holds exactly 25.
\<close>

theorem batchWrite_chunks:
  "concat (fst (batchWrite replies requests tableName)) = requests
   \<and> (\<forall>c \<in> set (fst (batchWrite replies requests tableName)). length c \<le> 25)
   \<and> (\<forall>i. Suc i < length (fst (batchWrite replies requests tableName))
          \<longrightarrow> length (fst (batchWrite replies requests tableName) ! i) = 25)"
proof -
  let ?m = "chunkRequests requests"
  have m: "fst (batchWrite replies requests tableName) = ?m"
    by (simp add: batchWrite_def Let_def)
  have c: "chunked ?m"
    by (rule chunked_chunkRequests)
  then have ne: "?m \<noteq> []"
    by (simp add: chunked_def)
  have full: "\<forall>i. Suc i < length ?m \<longrightarrow> length (?m ! i) = 25"
  proof (intro allI impI)
    fix i assume "Suc i < length ?m"
    then have "i < length (butlast ?m)"
      by simp
    then have "?m ! i \<in> set (butlast ?m)"
      by (metis nth_butlast nth_mem)
    then show "length (?m ! i) = 25"
      using c by (simp add: chunked_def)
  qed
  have small: "\<forall>c \<in> set ?m. length c \<le> 25"
    using c by (auto simp: set_butlast_last[OF ne] chunked_def)
  show ?thesis
    using full small by (simp add: m concat_chunkRequests)
qed

theorem batchWrite_chunks_witness:
  "Suc 0 < length (fst (batchWrite (\<lambda>i. \<lparr>err = None, data = None\<rparr>) [1 ..< 28 :: nat] ''books''))
   \<and> length (fst (batchWrite (\<lambda>i. \<lparr>err = None, data = None\<rparr>) [1 ..< 28 :: nat] ''books'') ! 0) = 25
   \<and> concat (fst (batchWrite (\<lambda>i. \<lparr>err = None, data = None\<rparr>) [1 ..< 28 :: nat] ''books''))
       = [1 ..< 28]"
proof -
  let ?m = "fst (batchWrite (\<lambda>i. \<lparr>err = None, data = None :: nat bw_data option\<rparr>) [1 ..< 28 :: nat] ''books'')"
  have "?m = chunkRequests [1 ..< 28]"
    by (simp add: batchWrite_def Let_def)
  also have "\<dots> = [[1 ..< 26], [26, 27]]"
    by code_simp
  finally have h: "Suc 0 < length ?m"
    by simp
  from batchWrite_chunks[of "\<lambda>i. \<lparr>err = None, data = None\<rparr>" "[1 ..< 28 :: nat]" "''books''"]
  have "concat ?m = [1 ..< 28]"
    and "\<forall>i. Suc i < length ?m \<longrightarrow> length (?m ! i) = 25"
    by blast+
  with h show ?thesis
    by blast
qed

text \<open>
  C10. For the empty list of write requests the chunk map holds one chunk, which is
  empty, and \<open>batchWrite\<close> issues one call, with the empty list for the table,
  whatever the client replies.
\<close>

theorem batchWrite_empty:
  "batchWrite replies [] tableName = ([[]], [(tableName, Some [])])"
  by (simp add: batchWrite_def chunkRequests_def chunkAt_def Let_def)

subsection \<open>Operator validation\<close>

text \<open>
  C3. \<open>_buildFilterQuery\<close> throws exactly when the operation of the filter (\<open>=\<close> when the
  filter has none) is not one of the twelve filter operations, and returns a filter
  query exactly when it is one of them.
\<close>

theorem buildFilterQuery_rejects:
  "((\<exists>e. buildFilterQuery f = Inl e) \<longleftrightarrow>
      operationOrDefault f \<notin> set [''='', ''!='', ''>'', ''>='', ''<'', ''<='', ''between'', ''exists'',
                                   ''not exists'', ''contains'', ''not contains'', ''begins_with''])
   \<and> ((\<exists>q. buildFilterQuery f = Inr q) \<longleftrightarrow>
      operationOrDefault f \<in> set [''='', ''!='', ''>'', ''>='', ''<'', ''<='', ''between'', ''exists'',
                                   ''not exists'', ''contains'', ''not contains'', ''begins_with''])"
proof -
  have ops: "[''='', ''!='', ''>'', ''>='', ''<'', ''<='', ''between'', ''exists'', ''not exists'',
              ''contains'', ''not contains'', ''begins_with''] = filterOperations"
    by (simp only: filterOperations_def)
  have bad: "buildFilterQuery f = Inl (invalidOperation (operationOrDefault f))"
    if "operationOrDefault f \<notin> set filterOperations"
    using that by (simp add: buildFilterQuery_def Let_def)
  have good: "\<exists>q. buildFilterQuery f = Inr q"
    if "operationOrDefault f \<in> set filterOperations"
    using that by (simp add: buildFilterQuery_def Let_def)
  show ?thesis
    unfolding ops
    by (cases "operationOrDefault f \<in> set filterOperations") (use bad good in auto)
qed

text \<open>
  C4. For a sort key condition given as an object, \<open>_constructQueryParams\<close> throws
  exactly when the operation of the condition (\<open>=\<close> when it has none) is not one of the
  seven query operations.
\<close>

theorem constructQueryParams_rejects:
  "(\<exists>e. constructQueryParams tableName primaryKey primaryKeyValue sortKey (KeyCondition c) = Inl e)
     \<longleftrightarrow> operationOrDefault c \<notin> set [''='', ''>'', ''>='', ''<'', ''<='', ''between'', ''begins_with'']"
  by (simp add: constructQueryParams_def queryOperations_def Let_def)

subsection \<open>Key condition expressions\<close>

text \<open>
  C5. For an allow-listed operation \<open>_constructQueryParams\<close> returns the parameters
  whose key condition is \<open><pk> = :pkvalue\<close> followed by
  \<open> and begins_with(<sk>, :skvalue)\<close> for \<open>begins_with\<close>, by
  \<open> and <sk> between :skvalue1 and :skvalue2 \<close> for \<open>between\<close> and by
  \<open> and <sk> <op> :skvalue\<close> for a comparison, and whose attribute values bind
  \<open>:pkvalue\<close> to the primary key value and the sort key placeholders to \<open>value\<close>, or to
  \<open>value1\<close> and \<open>value2\<close> for \<open>between\<close>.
\<close>

theorem constructQueryParams_expression:
  assumes "operationOrDefault c \<in> set [''='', ''>'', ''>='', ''<'', ''<='', ''between'', ''begins_with'']"
  shows "constructQueryParams tableName (Some pk) pkValue (Some sk) (KeyCondition c) =
     Inr \<lparr>TableName = tableName,
          KeyConditionExpression = Some (pk @ '' = :pkvalue'' @
            (if operationOrDefault c = ''begins_with'' then '' and begins_with('' @ sk @ '', :skvalue)''
             else if operationOrDefault c = ''between''
             then '' and '' @ sk @ '' between :skvalue1 and :skvalue2 ''
             else '' and '' @ sk @ '' '' @ operationOrDefault c @ '' :skvalue'')),
          FilterExpression = None,
          ExpressionAttributeValues = Some
            (if operationOrDefault c = ''between''
             then [('':pkvalue'', pkValue), ('':skvalue1'', value1 c), ('':skvalue2'', value2 c)]
             else [('':pkvalue'', pkValue), ('':skvalue'', value c)]),
          ExclusiveStartKey = None\<rparr>"
  using assms
  by (simp add: constructQueryParams_def queryOperations_def queryRequest_def tmpl_def Let_def)

theorem constructQueryParams_expression_witness:
  "constructQueryParams ''books'' (Some ''author'') (Str ''king'') (Some ''year'')
      (KeyCondition \<lparr>operation = Some ''between'', value = Undefined,
                      value1 = Num 2000, value2 = Num 2010\<rparr>) =
     Inr \<lparr>TableName = ''books'',
          KeyConditionExpression =
            Some ''author = :pkvalue and year between :skvalue1 and :skvalue2 '',
          FilterExpression = None,
          ExpressionAttributeValues =
            Some [('':pkvalue'', Str ''king''), ('':skvalue1'', Num 2000),
                  ('':skvalue2'', Num 2010)],
          ExclusiveStartKey = None\<rparr>"
proof -
  let ?c = "\<lparr>operation = Some ''between'', value = Undefined,
              value1 = Num 2000, value2 = Num 2010\<rparr>"
  have op: "operationOrDefault ?c = ''between''"
    by (simp add: operationOrDefault_def)
  have h: "operationOrDefault ?c
      \<in> set [''='', ''>'', ''>='', ''<'', ''<='', ''between'', ''begins_with'']"
    by (simp add: op)
  from constructQueryParams_expression[OF h, of "''books''" "''author''" "Str ''king''" "''year''"]
  show ?thesis
    by (simp add: op)
qed

text \<open>
  C9. When the table's key schema has been read, a non-empty string as third argument
  makes \<open>queryTable\<close> call the client, and \<open>queryTableWithAutoPagination\<close> paginate,
  with the key condition \<open><pk> = :pkvalue and begins_with(<sk>, :skvalue)\<close> and the
  string bound to \<open>:skvalue\<close>: a prefix condition on the sort key, not an equality.
\<close>

theorem queryTable_string_sort_key:
  assumes "s \<noteq> []"
    and "getTableKeySchema describeTable tableName = Inr schema"
  shows "queryTable describeTable query tableName pkValue (SortKeyValue s) =
       query \<lparr>TableName = tableName,
              KeyConditionExpression =
                Some (tmpl (map_of schema ''HASH'') @ '' = :pkvalue and begins_with(''
                        @ tmpl (map_of schema ''RANGE'') @ '', :skvalue)''),
              FilterExpression = None,
              ExpressionAttributeValues = Some [('':pkvalue'', pkValue), ('':skvalue'', Str s)],
              ExclusiveStartKey = None\<rparr>
     \<and> queryTableWithAutoPagination fuel describeTable pages tableName pkValue (SortKeyValue s) =
       autoPaginate fuel pages []
         \<lparr>TableName = tableName,
          KeyConditionExpression =
            Some (tmpl (map_of schema ''HASH'') @ '' = :pkvalue and begins_with(''
                    @ tmpl (map_of schema ''RANGE'') @ '', :skvalue)''),
          FilterExpression = None,
          ExpressionAttributeValues = Some [('':pkvalue'', pkValue), ('':skvalue'', Str s)],
          ExclusiveStartKey = None\<rparr>
         ''query'' initialResults None"
  using assms
  by (simp add: queryTable_def queryTableWithAutoPagination_def constructQueryParams_def
      queryRequest_def Let_def)

theorem queryTable_string_sort_key_witness:
  "queryTable (\<lambda>t. Inr [(''author'', ''HASH''), (''title'', ''RANGE'')])
      (\<lambda>params. Inl (Rejected (tmpl (KeyConditionExpression params))))
      ''books'' (Str ''king'') (SortKeyValue ''the'') =
     Inl (Rejected ''author = :pkvalue and begins_with(title, :skvalue)'')"
proof -
  let ?d = "\<lambda>t :: string. Inr [(''author'', ''HASH''), (''title'', ''RANGE'')] :: error + key_schema"
  have s: "''the'' \<noteq> []"
    by simp
  have k: "getTableKeySchema ?d ''books'' = Inr [(''HASH'', ''author''), (''RANGE'', ''title'')]"
    by (simp add: getTableKeySchema_def)
  from queryTable_string_sort_key[OF s k,
      of "\<lambda>params. Inl (Rejected (tmpl (KeyConditionExpression params)))" "Str ''king''"]
  show ?thesis
    by (simp add: tmpl_def)
qed

subsection \<open>Filter expressions\<close>

lemma buildFilterQuery_accepts:
  "operationOrDefault f \<in> set filterOperations \<Longrightarrow> \<exists>q. buildFilterQuery f = Inr q"
  by (simp add: buildFilterQuery_def Let_def)

lemma buildFilterQuery_distinct:
  "buildFilterQuery f = Inr q \<Longrightarrow> distinct (map fst (expressionAttributeValues q))"
  by (auto simp add: buildFilterQuery_def Let_def split: if_splits)

lemma map_of_foldl_update:
  "distinct (map fst b) \<Longrightarrow>
     map_of (foldl (\<lambda>acc (k, v). AList.update k v acc) ps b) = map_of ps ++ map_of b"
proof (induction b arbitrary: ps)
  case Nil
  then show ?case by simp
next
  case (Cons kv b)
  obtain k v where kv: "kv = (k, v)" by (cases kv)
  from Cons.prems have d: "distinct (map fst b)" and k: "k \<notin> fst ` set b"
    by (simp_all add: kv)
  have nk: "map_of b k = None"
    using k by (simp add: map_of_eq_None_iff)
  have "map_of (foldl (\<lambda>acc (k, v). AList.update k v acc) ps (kv # b)) =
      map_of (foldl (\<lambda>acc (k, v). AList.update k v acc) (AList.update k v ps) b)"
    by (simp add: kv)
  also have "\<dots> = map_of (AList.update k v ps) ++ map_of b"
    by (rule Cons.IH[OF d])
  also have "\<dots> = map_of ps ++ map_of (kv # b)"
    unfolding kv using nk
    by (auto simp: map_add_def fun_eq_iff update_conv' split: option.splits)
  finally show ?case .
qed

lemma map_of_spread:
  "distinct (map fst b) \<Longrightarrow> map_of (spread (Some a) b) = map_of a ++ map_of b"
  by (simp add: spread_def map_of_foldl_update)

lemma joinWith_shift: "joinWith sep ((a @ sep @ x) # ys) = a @ sep @ joinWith sep (x # ys)"
  by (cases ys) simp_all

lemma foldl_joinWith: "foldl (\<lambda>e x. e @ sep @ x) e0 xs = joinWith sep (e0 # xs)"
proof (induction xs arbitrary: e0)
  case Nil
  show ?case by simp
next
  case (Cons x xs)
  have "foldl (\<lambda>e x. e @ sep @ x) e0 (x # xs) = joinWith sep ((e0 @ sep @ x) # xs)"
    by (simp add: Cons.IH)
  also have "\<dots> = e0 @ sep @ joinWith sep (x # xs)"
    by (rule joinWith_shift)
  finally show ?case
    by simp
qed

lemma addFilters_run:
  assumes "map buildFilterQuery fs = map Inr qs" and "i > 0"
    and "FilterExpression params = Some e0" and "ExpressionAttributeValues params = Some b0"
  shows "addFilters i fs params =
     Inr (params\<lparr>FilterExpression := Some (foldl (\<lambda>e x. e @ '' and '' @ x) e0 (map expression qs)),
                 ExpressionAttributeValues :=
                   Some (foldl (\<lambda>b q. spread (Some b) (expressionAttributeValues q)) b0 qs)\<rparr>)"
  using assms
proof (induction fs arbitrary: qs i params e0 b0)
  case Nil
  then show ?case by simp
next
  case (Cons f fs)
  from Cons.prems(1) obtain q qs' where qs: "qs = q # qs'" and q: "buildFilterQuery f = Inr q"
    and rest: "map buildFilterQuery fs = map Inr qs'"
    by (cases qs) auto
  let ?p = "params\<lparr>FilterExpression := Some (e0 @ '' and '' @ expression q),
                    ExpressionAttributeValues := Some (spread (Some b0) (expressionAttributeValues q))\<rparr>"
  have step: "addFilters i (f # fs) params = addFilters (i + 1) fs ?p"
    using Cons.prems q by (simp add: tmpl_def)
  have "addFilters (i + 1) fs ?p =
     Inr (?p\<lparr>FilterExpression := Some (foldl (\<lambda>e x. e @ '' and '' @ x) (e0 @ '' and '' @ expression q) (map expression qs')),
             ExpressionAttributeValues :=
               Some (foldl (\<lambda>b q. spread (Some b) (expressionAttributeValues q))
                       (spread (Some b0) (expressionAttributeValues q)) qs')\<rparr>)"
    by (rule Cons.IH[OF rest]) simp_all
  then show ?case
    unfolding step qs by simp
qed

lemma map_of_foldl_spread:
  "\<forall>q \<in> set qs. distinct (map fst (expressionAttributeValues q)) \<Longrightarrow>
   map_of (foldl (\<lambda>b q. spread (Some b) (expressionAttributeValues q)) b0 qs) =
     foldl (++) (map_of b0) (map (\<lambda>q. map_of (expressionAttributeValues q)) qs)"
  by (induction qs arbitrary: b0) (simp_all add: map_of_spread)

lemma buildFilterQuery_all:
  "\<forall>f \<in> set fs. operationOrDefault f \<in> set filterOperations \<Longrightarrow>
     \<exists>qs. map buildFilterQuery fs = map Inr qs"
proof (induction fs)
  case Nil
  show ?case by simp
next
  case (Cons f fs)
  then obtain qs where "map buildFilterQuery fs = map Inr qs" by auto
  moreover from Cons.prems obtain q where "buildFilterQuery f = Inr q"
    using buildFilterQuery_accepts[of f] by auto
  ultimately have "map buildFilterQuery (f # fs) = map Inr (q # qs)" by simp
  then show ?case by blast
qed

text \<open>
  What the \<open>forEach\<close> of lines 224 to 236 computes for a non-empty array of filters
  with allow-listed operations: the expressions of the filter queries joined by
  \<open> and \<close> in list order, and their bindings assigned in list order into one object.
\<close>

lemma constructScanParams_merges:
  assumes "filters \<noteq> []"
    and "\<forall>f \<in> set filters. operationOrDefault f \<in> set [''='', ''!='', ''>'', ''>='', ''<'', ''<='',
           ''between'', ''exists'', ''not exists'', ''contains'', ''not contains'', ''begins_with'']"
  shows "\<exists>qs eav. map buildFilterQuery filters = map Inr qs
     \<and> constructScanParams tableName (FilterArray filters) =
         Inr \<lparr>TableName = tableName, KeyConditionExpression = None,
              FilterExpression = Some (joinWith '' and '' (map expression qs)),
              ExpressionAttributeValues = Some eav, ExclusiveStartKey = None\<rparr>
     \<and> map_of eav = foldl (++) Map.empty (map (\<lambda>q. map_of (expressionAttributeValues q)) qs)"
proof -
  from assms(2) obtain qs where qs: "map buildFilterQuery filters = map Inr qs"
    using buildFilterQuery_all[of filters] by (auto simp: filterOperations_def)
  from assms(1) qs obtain f fs q qs' where f: "filters = f # fs" and q: "qs = q # qs'"
    and bq: "buildFilterQuery f = Inr q" and rest: "map buildFilterQuery fs = map Inr qs'"
    by (cases filters; cases qs) auto
  let ?p0 = "\<lparr>TableName = tableName, KeyConditionExpression = None,
               FilterExpression = Some (expression q),
               ExpressionAttributeValues = Some (expressionAttributeValues q),
               ExclusiveStartKey = None\<rparr>"
  let ?eav = "foldl (\<lambda>b q. spread (Some b) (expressionAttributeValues q))
                (expressionAttributeValues q) qs'"
  have "constructScanParams tableName (FilterArray filters) = addFilters 1 fs ?p0"
    by (simp add: constructScanParams_def f bq)
  also have "\<dots> = Inr (?p0\<lparr>FilterExpression :=
                  Some (foldl (\<lambda>e x. e @ '' and '' @ x) (expression q) (map expression qs')),
                ExpressionAttributeValues := Some ?eav\<rparr>)"
    by (rule addFilters_run[OF rest]) simp_all
  finally have run: "constructScanParams tableName (FilterArray filters) =
      Inr \<lparr>TableName = tableName, KeyConditionExpression = None,
           FilterExpression = Some (joinWith '' and '' (map expression qs)),
           ExpressionAttributeValues = Some ?eav, ExclusiveStartKey = None\<rparr>"
    by (simp add: foldl_joinWith[of "'' and ''", simplified] q del: joinWith.simps)
  have "\<forall>x \<in> set qs. distinct (map fst (expressionAttributeValues x))"
  proof
    fix x assume "x \<in> set qs"
    then have "Inr x \<in> set (map buildFilterQuery filters)" by (simp add: qs)
    then obtain g where "buildFilterQuery g = Inr x" by auto
    then show "distinct (map fst (expressionAttributeValues x))"
      by (rule buildFilterQuery_distinct)
  qed
  then have d: "\<forall>x \<in> set qs'. distinct (map fst (expressionAttributeValues x))"
    by (simp add: q)
  have "map_of ?eav = foldl (++) Map.empty (map (\<lambda>q. map_of (expressionAttributeValues q)) qs)"
    by (simp add: map_of_foldl_spread[OF d] q)
  with qs run show ?thesis by blast
qed

text \<open>
  C6. The attribute values are not the union of the filters' bindings when two filters
  name the same attribute. \<open>_buildFilterQuery\<close> names the placeholder after the
  attribute alone, so both filters bind \<open>:yearValue\<close>; the spread of lines 228 to 231
  keeps the second binding only, and the expression
  \<open>year > :yearValue and year < :yearValue\<close> compares both times with the value of the
  second filter. Within one filter the \<open>between\<close> branch keeps its two values apart
  with the placeholders \<open>Value1\<close> and \<open>Value2\<close>.
\<close>

theorem constructScanParams_same_attribute:
  "buildFilterQuery \<lparr>operation = Some ''>'', value = Num 2000, value1 = Undefined,
                     value2 = Undefined, attribute = ''year''\<rparr> =
     Inr \<lparr>expression = ''year > :yearValue'',
          expressionAttributeValues = [('':yearValue'', Num 2000)]\<rparr>
   \<and> buildFilterQuery \<lparr>operation = Some ''<'', value = Num 2010, value1 = Undefined,
                       value2 = Undefined, attribute = ''year''\<rparr> =
     Inr \<lparr>expression = ''year < :yearValue'',
          expressionAttributeValues = [('':yearValue'', Num 2010)]\<rparr>
   \<and> constructScanParams ''books''
        (FilterArray
          [\<lparr>operation = Some ''>'', value = Num 2000, value1 = Undefined, value2 = Undefined,
             attribute = ''year''\<rparr>,
           \<lparr>operation = Some ''<'', value = Num 2010, value1 = Undefined, value2 = Undefined,
             attribute = ''year''\<rparr>]) =
     Inr \<lparr>TableName = ''books'', KeyConditionExpression = None,
          FilterExpression = Some ''year > :yearValue and year < :yearValue'',
          ExpressionAttributeValues = Some [('':yearValue'', Num 2010)],
          ExclusiveStartKey = None\<rparr>
   \<and> set [('':yearValue'', Num 2010)]
       \<noteq> set [('':yearValue'', Num 2000)] \<union> set [('':yearValue'', Num 2010)]"
  by (simp add: constructScanParams_def buildFilterQuery_def operationOrDefault_def
      filterOperations_def spread_def tmpl_def sublist_code Let_def)

subsection \<open>Auto-pagination\<close>

lemma calls_append_call [simp]: "calls (tr @ [Request m q, Response r]) = Suc (calls tr)"
  by (simp add: calls_def)

lemma calls_Nil [simp]: "calls [] = 0"
  by (simp add: calls_def)

text \<open>
  Integers of at most 53 binary digits are doubles, so adding counts is exact as long
  as the sum stays below \<open>2 ^ 53\<close>.
\<close>

lemma bits_bound: "a < 2 ^ k \<Longrightarrow> bits a \<le> k"
proof (induction k arbitrary: a)
  case 0
  then have "a \<le> 0" by simp
  then show ?case by (simp add: bits.simps)
next
  case (Suc k)
  show ?case
  proof (cases "a \<le> 0")
    case True
    then show ?thesis by (simp add: bits.simps)
  next
    case False
    from Suc.prems have "a div 2 < 2 ^ k" by simp
    then have "bits (a div 2) \<le> k" by (rule Suc.IH)
    with False show ?thesis by (subst bits.simps) simp
  qed
qed

lemma roundDouble_exact:
  assumes "0 \<le> z" and "z < 2 ^ 53"
  shows "roundDouble z = Integer z"
proof -
  have "\<bar>z\<bar> < 2 ^ 53"
    using assms by simp
  then have "bits \<bar>z\<bar> \<le> 53"
    by (rule bits_bound)
  then show ?thesis
    by (simp add: roundDouble_def Let_def)
qed

lemma jsAdd_count:
  assumes "isCount n" and "0 \<le> a" and "a + countValue n < 2 ^ 53"
  shows "jsAdd (Integer a) n = Integer (a + countValue n)"
proof (cases n)
  case (Integer x)
  with assms have "0 \<le> a + x" and "a + x < 2 ^ 53"
    by simp_all
  then have "roundDouble (a + x) = Integer (a + x)"
    by (rule roundDouble_exact)
  then show ?thesis
    by (simp add: Integer)
qed (use assms in simp_all)


text \<open>
  Beyond the safe integers the addition rounds: \<open>2 ^ 53 + 1\<close> is \<open>2 ^ 53\<close>.
\<close>

lemma bits_54: "bits 9007199254740993 = 54"
  by (simp add: bits.simps)

lemma jsAdd_rounds: "jsAdd (Integer 9007199254740992) (Integer 1) = Integer 9007199254740992"
  by (simp add: roundDouble_def bits_54 Let_def)


lemma countValue_nonneg: "isCount n \<Longrightarrow> 0 \<le> countValue n"
  by (cases n) simp_all

lemma sum_countValue_nonneg: "\<forall>n \<in> set ns. isCount n \<Longrightarrow> 0 \<le> sum_list (map countValue ns)"
  by (induction ns) (simp_all add: countValue_nonneg)

lemma autoPaginate_pages:
  assumes "method = ''query'' \<or> method = ''scan''"
  shows "ps \<noteq> [] \<Longrightarrow> \<forall>i<length ps. pages (calls tr + i) = Inr (ps ! i) \<Longrightarrow>
     \<forall>p \<in> set (butlast ps). LastEvaluatedKey p \<noteq> None \<Longrightarrow> LastEvaluatedKey (last ps) = None \<Longrightarrow>
     length ps \<le> fuel \<Longrightarrow>
     \<forall>p \<in> set ps. isCount (Count p) \<and> isCount (ScannedCount p) \<Longrightarrow>
     Count agg = Integer a \<Longrightarrow> 0 \<le> a \<Longrightarrow>
     a + sum_list (map countValue (map Count ps)) < 2 ^ 53 \<Longrightarrow>
     ScannedCount agg = Integer b \<Longrightarrow> 0 \<le> b \<Longrightarrow>
     b + sum_list (map countValue (map ScannedCount ps)) < 2 ^ 53 \<Longrightarrow>
     fst (autoPaginate fuel pages tr params method agg lek) =
       Some (Inr \<lparr>Count = Integer (a + sum_list (map countValue (map Count ps))),
                  ScannedCount = Integer (b + sum_list (map countValue (map ScannedCount ps))),
                  Items = Items agg @ concat (map Items ps)\<rparr>)"
proof (induction ps arbitrary: tr agg lek fuel a b)
  case Nil
  then show ?case by simp
next
  case (Cons p ps)
  from Cons.prems(5) obtain f where fuel: "fuel = Suc f" and f: "length ps \<le> f"
    by (cases fuel) auto
  from Cons.prems(2) have p: "pages (calls tr) = Inr p"
    by force
  from Cons.prems(6) have cp: "isCount (Count p)" and sp: "isCount (ScannedCount p)"
    and rest: "\<forall>q \<in> set ps. isCount (Count q) \<and> isCount (ScannedCount q)"
    by simp_all
  have rc: "0 \<le> sum_list (map countValue (map Count ps))"
    using rest by (intro sum_countValue_nonneg) auto
  have rs: "0 \<le> sum_list (map countValue (map ScannedCount ps))"
    using rest by (intro sum_countValue_nonneg) auto
  have a': "0 \<le> a + countValue (Count p)"
    using Cons.prems(8) countValue_nonneg[OF cp] by simp
  have b': "0 \<le> b + countValue (ScannedCount p)"
    using Cons.prems(11) countValue_nonneg[OF sp] by simp
  have ca: "jsAdd (Count agg) (Count p) = Integer (a + countValue (Count p))"
    unfolding Cons.prems(7) using cp Cons.prems(8) Cons.prems(9) rc
    by (intro jsAdd_count) simp_all
  have sa: "jsAdd (ScannedCount agg) (ScannedCount p) = Integer (b + countValue (ScannedCount p))"
    unfolding Cons.prems(10) using sp Cons.prems(11) Cons.prems(12) rs
    by (intro jsAdd_count) simp_all
  show ?case
  proof (cases "ps = []")
    case True
    with Cons.prems(4) have "LastEvaluatedKey p = None" by simp
    then show ?thesis
      using assms p True ca sa by (auto simp: fuel Let_def)
  next
    case False
    with Cons.prems(3) obtain k where k: "LastEvaluatedKey p = Some k"
      by auto
    let ?q = "case lek of None \<Rightarrow> params | Some k \<Rightarrow> params\<lparr>ExclusiveStartKey := Some k\<rparr>"
    let ?tr = "tr @ [Request method ?q, Response (Inr p)]"
    let ?agg = "agg\<lparr>Count := jsAdd (Count agg) (Count p),
                    ScannedCount := jsAdd (ScannedCount agg) (ScannedCount p),
                    Items := Items agg @ Items p\<rparr>"
    have step: "autoPaginate fuel pages tr params method agg lek =
        autoPaginate f pages ?tr params method ?agg (Some k)"
      using assms p k by (auto simp: fuel Let_def)
    have pages': "\<forall>i<length ps. pages (calls ?tr + i) = Inr (ps ! i)"
    proof (intro allI impI)
      fix i assume "i < length ps"
      then have "pages (calls tr + Suc i) = Inr ((p # ps) ! Suc i)"
        using Cons.prems(2) by (metis Suc_less_eq length_Cons)
      then show "pages (calls ?tr + i) = Inr (ps ! i)" by simp
    qed
    have more: "\<forall>q \<in> set (butlast ps). LastEvaluatedKey q \<noteq> None"
      using Cons.prems(3) False by simp
    have stop: "LastEvaluatedKey (last ps) = None"
      using Cons.prems(4) False by simp
    have "fst (autoPaginate f pages ?tr params method ?agg (Some k)) =
       Some (Inr \<lparr>Count = Integer (a + countValue (Count p) + sum_list (map countValue (map Count ps))),
                  ScannedCount = Integer (b + countValue (ScannedCount p)
                                   + sum_list (map countValue (map ScannedCount ps))),
                  Items = Items ?agg @ concat (map Items ps)\<rparr>)"
    proof (rule Cons.IH[OF False pages' more stop f rest])
      show "Count ?agg = Integer (a + countValue (Count p))" by (simp add: ca)
      show "ScannedCount ?agg = Integer (b + countValue (ScannedCount p))" by (simp add: sa)
      show "0 \<le> a + countValue (Count p)" by (rule a')
      show "0 \<le> b + countValue (ScannedCount p)" by (rule b')
      show "a + countValue (Count p) + sum_list (map countValue (map Count ps)) < 2 ^ 53"
        using Cons.prems(9) by simp
      show "b + countValue (ScannedCount p) + sum_list (map countValue (map ScannedCount ps)) < 2 ^ 53"
        using Cons.prems(12) by simp
    qed
    then show ?thesis
      unfolding step by (simp add: add.assoc)
  qed
qed

text \<open>
  C2. Let the replies of the client be the pages \<open>ps\<close>, every page but the last with a
  \<open>LastEvaluatedKey\<close> and the last without one (the sequence of page responses ends
  there), and let the counts of the pages be counts, non-negative integers, whose
  totals are safe integers, below \<open>2 ^ 53\<close>. Started as the exported operations start
  it, on the accumulator with zero counts and no items, and allowed one invocation per
  page, \<open>_autoPaginate\<close> returns the aggregate whose \<open>Items\<close> are the items of the pages
  concatenated in page order and whose \<open>Count\<close> and \<open>ScannedCount\<close> are the sums of
  those of the pages.
\<close>

theorem autoPaginate_aggregates:
  assumes "method = ''query'' \<or> method = ''scan''"
    and "ps \<noteq> []"
    and "\<forall>i<length ps. pages i = Inr (ps ! i)"
    and "\<forall>p \<in> set (butlast ps). LastEvaluatedKey p \<noteq> None"
    and "LastEvaluatedKey (last ps) = None"
    and "length ps \<le> fuel"
    and "\<forall>p \<in> set ps. isCount (Count p) \<and> isCount (ScannedCount p)"
    and "sum_list (map countValue (map Count ps)) < 2 ^ 53"
    and "sum_list (map countValue (map ScannedCount ps)) < 2 ^ 53"
  shows "fst (autoPaginate fuel pages [] params method
                \<lparr>Count = Integer 0, ScannedCount = Integer 0, Items = []\<rparr> None) =
     Some (Inr \<lparr>Count = Integer (sum_list (map countValue (map Count ps))),
                ScannedCount = Integer (sum_list (map countValue (map ScannedCount ps))),
                Items = concat (map Items ps)\<rparr>)"
  using autoPaginate_pages[OF assms(1,2), where tr = "[]" and a = 0 and b = 0
      and agg = "\<lparr>Count = Integer 0, ScannedCount = Integer 0, Items = []\<rparr>"]
    assms(3-9)
  by simp

theorem autoPaginate_aggregates_witness:
  "fst (autoPaginate 2
         (\<lambda>i. if i = 0
               then Inr \<lparr>Count = Integer 2, ScannedCount = Integer 5,
                         Items = [[(''id'', Num 1)], [(''id'', Num 2)]],
                         LastEvaluatedKey = Some [(''id'', Num 2)]\<rparr>
               else Inr \<lparr>Count = Integer 1, ScannedCount = Integer 3,
                         Items = [[(''id'', Num 7)]], LastEvaluatedKey = None\<rparr>)
         []
         \<lparr>TableName = ''books'', KeyConditionExpression = None, FilterExpression = None,
          ExpressionAttributeValues = None, ExclusiveStartKey = None\<rparr>
         ''scan'' \<lparr>Count = Integer 0, ScannedCount = Integer 0, Items = []\<rparr> None) =
     Some (Inr \<lparr>Count = Integer 3, ScannedCount = Integer 8,
                Items = [[(''id'', Num 1)], [(''id'', Num 2)], [(''id'', Num 7)]]\<rparr>)"
proof -
  let ?p0 = "\<lparr>Count = Integer 2, ScannedCount = Integer 5,
              Items = [[(''id'', Num 1)], [(''id'', Num 2)]],
              LastEvaluatedKey = Some [(''id'', Num 2)]\<rparr>"
  let ?p1 = "\<lparr>Count = Integer 1, ScannedCount = Integer 3, Items = [[(''id'', Num 7)]],
              LastEvaluatedKey = None :: key option\<rparr>"
  let ?pages = "\<lambda>i :: nat. if i = 0 then Inr ?p0 else (Inr ?p1 :: reply)"
  have m: "''scan'' = ''query'' \<or> ''scan'' = ''scan''"
    by simp
  have ne: "[?p0, ?p1] \<noteq> []"
    by simp
  have pg: "\<forall>i<length [?p0, ?p1]. ?pages i = Inr ([?p0, ?p1] ! i)"
    by (simp add: nth_Cons')
  have more: "\<forall>p \<in> set (butlast [?p0, ?p1]). LastEvaluatedKey p \<noteq> None"
    by simp
  have stop: "LastEvaluatedKey (last [?p0, ?p1]) = None"
    by simp
  have fuel: "length [?p0, ?p1] \<le> 2"
    by simp
  have counts: "\<forall>p \<in> set [?p0, ?p1]. isCount (Count p) \<and> isCount (ScannedCount p)"
    by simp
  have c: "sum_list (map countValue (map Count [?p0, ?p1])) < 2 ^ 53"
    by simp
  have sc: "sum_list (map countValue (map ScannedCount [?p0, ?p1])) < 2 ^ 53"
    by simp
  from autoPaginate_aggregates[OF m ne pg more stop fuel counts c sc] show ?thesis
    by simp
qed

lemma autoPaginate_run:
  assumes "method = ''query'' \<or> method = ''scan''"
  shows "\<forall>i<n. hasNext (pages (calls tr + i)) \<Longrightarrow> \<not> hasNext (pages (calls tr + n)) \<Longrightarrow> n < fuel \<Longrightarrow>
     \<exists>res tr'. autoPaginate fuel pages tr params method agg lek = (Some res, tr')
        \<and> calls tr' = calls tr + Suc n \<and> isl res = isl (pages (calls tr + n))"
proof (induction n arbitrary: tr agg lek fuel)
  case 0
  then obtain f where fuel: "fuel = Suc f" by (cases fuel) auto
  from 0(2) show ?case
    using assms by (cases "pages (calls tr)") (auto simp: fuel Let_def)
next
  case (Suc n)
  then obtain f where fuel: "fuel = Suc f" and f: "n < f" by (cases fuel) auto
  from Suc.prems(1) have "hasNext (pages (calls tr))" by force
  then obtain p k where p: "pages (calls tr) = Inr p" and k: "LastEvaluatedKey p = Some k"
    by (cases "pages (calls tr)") auto
  let ?q = "case lek of None \<Rightarrow> params | Some k \<Rightarrow> params\<lparr>ExclusiveStartKey := Some k\<rparr>"
  let ?tr = "tr @ [Request method ?q, Response (Inr p)]"
  let ?agg = "agg\<lparr>Count := jsAdd (Count agg) (Count p),
                  ScannedCount := jsAdd (ScannedCount agg) (ScannedCount p),
                  Items := Items agg @ Items p\<rparr>"
  have step: "autoPaginate fuel pages tr params method agg lek =
      autoPaginate f pages ?tr params method ?agg (Some k)"
    using assms p k by (auto simp: fuel Let_def)
  have more: "\<forall>i<n. hasNext (pages (calls ?tr + i))"
  proof (intro allI impI)
    fix i assume "i < n"
    then have "hasNext (pages (calls tr + Suc i))"
      using Suc.prems(1) by (metis Suc_less_eq)
    then show "hasNext (pages (calls ?tr + i))" by simp
  qed
  have stop: "\<not> hasNext (pages (calls ?tr + n))"
    using Suc.prems(2) by simp
  from Suc.IH[OF more stop f, of ?agg "Some k"] show ?case
    by (simp add: step)
qed

text \<open>
  C7. When some reply of the client is not a page with a \<open>LastEvaluatedKey\<close>,
  \<open>_autoPaginate\<close> ends: with \<open>n\<close> the first such reply, so that every reply before
  it carries a \<open>LastEvaluatedKey\<close>, any run allowed more than \<open>n\<close> invocations has a
  result after exactly \<open>n + 1\<close> calls of the client, one more after every reply with a
  \<open>LastEvaluatedKey\<close> and none after reply \<open>n\<close>; the result is an aggregate when
  reply \<open>n\<close> is a page and the rejection when it is one.
\<close>

theorem autoPaginate_terminates:
  assumes "method = ''query'' \<or> method = ''scan''"
    and "\<exists>i. \<not> hasNext (pages i)"
  shows "\<exists>n. (\<forall>i<n. hasNext (pages i)) \<and> \<not> hasNext (pages n)
     \<and> (\<forall>fuel>n. \<exists>res tr. autoPaginate fuel pages [] params method agg None = (Some res, tr)
            \<and> calls tr = Suc n \<and> isl res = isl (pages n))"
proof -
  define n where "n = (LEAST i. \<not> hasNext (pages i))"
  have stop: "\<not> hasNext (pages n)"
    unfolding n_def using assms(2) by (rule LeastI_ex)
  have more: "\<forall>i<n. hasNext (pages i)"
    unfolding n_def using not_less_Least by blast
  have "\<forall>fuel>n. \<exists>res tr. autoPaginate fuel pages [] params method agg None = (Some res, tr)
            \<and> calls tr = Suc n \<and> isl res = isl (pages n)"
  proof (intro allI impI)
    fix fuel assume "n < fuel"
    with autoPaginate_run[OF assms(1), of n pages "[]" fuel params agg None] more stop
    show "\<exists>res tr. autoPaginate fuel pages [] params method agg None = (Some res, tr)
            \<and> calls tr = Suc n \<and> isl res = isl (pages n)"
      by simp
  qed
  with more stop show ?thesis by blast
qed

theorem autoPaginate_terminates_witness:
  "\<exists>n. (\<forall>i<n. hasNext (if i < 2 then Inr \<lparr>Count = Integer 1, ScannedCount = Integer 1, Items = [],
                                          LastEvaluatedKey = Some [(''id'', Num (int i))]\<rparr>
                         else Inr \<lparr>Count = Integer 0, ScannedCount = Integer 4, Items = [],
                                   LastEvaluatedKey = None\<rparr>))
      \<and> (\<forall>fuel>n. \<exists>res tr.
            autoPaginate fuel
              (\<lambda>i. if i < 2 then Inr \<lparr>Count = Integer 1, ScannedCount = Integer 1, Items = [],
                                      LastEvaluatedKey = Some [(''id'', Num (int i))]\<rparr>
                    else Inr \<lparr>Count = Integer 0, ScannedCount = Integer 4, Items = [],
                              LastEvaluatedKey = None\<rparr>)
              []
              \<lparr>TableName = ''books'', KeyConditionExpression = None, FilterExpression = None,
               ExpressionAttributeValues = None, ExclusiveStartKey = None\<rparr>
              ''scan'' initialResults None = (Some res, tr)
            \<and> calls tr = Suc n \<and> \<not> isl res)"
proof -
  let ?pages = "\<lambda>i :: nat. if i < 2 then Inr \<lparr>Count = Integer 1, ScannedCount = Integer 1, Items = [],
                                      LastEvaluatedKey = Some [(''id'', Num (int i))]\<rparr>
                    else (Inr \<lparr>Count = Integer 0, ScannedCount = Integer 4, Items = [],
                              LastEvaluatedKey = None\<rparr> :: reply)"
  have m: "''scan'' = ''query'' \<or> ''scan'' = ''scan''"
    by simp
  have stop: "\<exists>i. \<not> hasNext (?pages i)"
    by (rule exI[of _ 2]) simp
  have page: "\<And>n. \<not> isl (?pages n)"
    by simp
  from autoPaginate_terminates[OF m stop] page show ?thesis
    by (metis (no_types, lifting))
qed

lemma autoPaginate_extends:
  "\<exists>ext. snd (autoPaginate fuel pages tr params method agg lek) = tr @ ext
      \<and> sequential params method lek ext"
proof (induction fuel arbitrary: tr agg lek)
  case 0
  show ?case by simp
next
  case (Suc fuel)
  show ?case
  proof (cases "method \<noteq> ''scan'' \<and> method \<noteq> ''query''")
    case True
    then show ?thesis by simp
  next
    case valid: False
    let ?q = "case lek of None \<Rightarrow> params | Some k \<Rightarrow> params\<lparr>ExclusiveStartKey := Some k\<rparr>"
    let ?tr = "tr @ [Request method ?q, Response (pages (calls tr))]"
    show ?thesis
    proof (cases "pages (calls tr)")
      case (Inl e)
      have "snd (autoPaginate (Suc fuel) pages tr params method agg lek) = tr @ [Request method ?q, Response (Inl e)]"
        using valid Inl by (auto simp: Let_def)
      moreover have "sequential params method lek [Request method ?q, Response (Inl e)]"
        by simp
      ultimately show ?thesis by blast
    next
      case (Inr r)
      show ?thesis
      proof (cases "LastEvaluatedKey r")
        case None
        have "snd (autoPaginate (Suc fuel) pages tr params method agg lek) = tr @ [Request method ?q, Response (Inr r)]"
          using valid Inr None by (auto simp: Let_def)
        moreover have "sequential params method lek [Request method ?q, Response (Inr r)]"
          using None by simp
        ultimately show ?thesis by blast
      next
        case (Some k)
        let ?agg = "agg\<lparr>Count := jsAdd (Count agg) (Count r),
                  ScannedCount := jsAdd (ScannedCount agg) (ScannedCount r),
                  Items := Items agg @ Items r\<rparr>"
        have step: "autoPaginate (Suc fuel) pages tr params method agg lek =
            autoPaginate fuel pages (tr @ [Request method ?q, Response (Inr r)]) params method ?agg (Some k)"
          using valid Inr Some by (auto simp: Let_def)
        from Suc.IH[of "tr @ [Request method ?q, Response (Inr r)]" ?agg "Some k"]
        obtain ext where ext: "snd (autoPaginate fuel pages (tr @ [Request method ?q, Response (Inr r)]) params method ?agg (Some k)) = (tr @ [Request method ?q, Response (Inr r)]) @ ext"
          and seq: "sequential params method (Some k) ext"
          by blast
        have "snd (autoPaginate (Suc fuel) pages tr params method agg lek) = tr @ (Request method ?q # Response (Inr r) # ext)"
          unfolding step ext by simp
        moreover have "sequential params method lek (Request method ?q # Response (Inr r) # ext)"
          using Some seq by simp
        ultimately show ?thesis by blast
      qed
    qed
  qed
qed

text \<open>
  C8. Whatever the client replies and however far the run has come, the log of
  \<open>_autoPaginate\<close> is strictly sequential: a request is followed by its reply before
  the next request, every request after the first is the first request with the
  \<open>LastEvaluatedKey\<close> of the reply just before it as \<open>ExclusiveStartKey\<close>, and no
  request follows a rejection or a page without \<open>LastEvaluatedKey\<close>.
\<close>

theorem autoPaginate_sequential:
  "sequential params method None (snd (autoPaginate fuel pages [] params method agg None))"
  using autoPaginate_extends[where tr = "[]" and lek = None] by auto

end
